theory Spec2Isabelle
  imports Main "HOL-Library.Sublist"
begin

section \<open>JavaScript strings\<close>

text \<open>
  A string is a list of code units, here the 8-bit \<open>char\<close> (the code units U+0000 to
  U+00FF). \<open>is_ws\<close> is the set that \<open>String.prototype.trim\<close> and \<open>parseInt\<close> strip
  (WhiteSpace and LineTerminator of ECMAScript) within that range: TAB, LF, VT, FF, CR,
  SPACE and NBSP.
\<close>

definition is_ws :: "char \<Rightarrow> bool" where
  "is_ws c = (c = CHR 0x09 \<or> c = CHR 0x0A \<or> c = CHR 0x0B \<or> c = CHR 0x0C \<or> c = CHR 0x0D
              \<or> c = CHR 0x20 \<or> c = CHR 0xA0)"

definition ltrim :: "string \<Rightarrow> string" where
  "ltrim s = dropWhile is_ws s"

definition rtrim :: "string \<Rightarrow> string" where
  "rtrim s = rev (dropWhile is_ws (rev s))"

text \<open>\<open>s.trim()\<close>\<close>

definition trim :: "string \<Rightarrow> string" where
  "trim s = rtrim (ltrim s)"

text \<open>\<open>s.includes(q)\<close>: \<open>q\<close> occurs in \<open>s\<close> as a contiguous run.\<close>

fun str_includes :: "string \<Rightarrow> string \<Rightarrow> bool" where
  "str_includes [] q = (q = [])"
| "str_includes (c # cs) q = (prefix q (c # cs) \<or> str_includes cs q)"

text \<open>
  \<open>s.split(c)\<close> for a separator of one code unit: the pieces between all occurrences
  of \<open>c\<close>, in order. The result is never empty (\<open>''''.split(c)\<close> is \<open>['''']\<close>), so
  the \<open>[]\<close> branch of the inner case is never taken.
\<close>

fun js_split :: "char \<Rightarrow> string \<Rightarrow> string list" where
  "js_split c [] = [] # []"
| "js_split c (x # xs) =
     (if x = c then [] # js_split c xs
      else (case js_split c xs of [] \<Rightarrow> [x] # [] | p # ps \<Rightarrow> (x # p) # ps))"

text \<open>\<open>s.replace(/c/g, r)\<close> for a pattern that matches the one code unit \<open>c\<close>.\<close>

definition replace_all :: "char \<Rightarrow> string \<Rightarrow> string \<Rightarrow> string" where
  "replace_all c r s = concat (map (\<lambda>x. if x = c then r else [x]) s)"

section \<open>src/utils/imageUrl.ts: parseItemName\<close>

record ItemName =
  baseName :: string
  variant :: "string option"

text \<open>
  \<open>const [baseName, variant] = trimmed.split('#')\<close> binds the first two pieces of the
  split; \<open>variant\<close> is \<open>undefined\<close> when there is no second piece, and
  \<open>variant?.trim()\<close> is then \<open>undefined\<close> too. Under the guard
  \<open>trimmed.includes('#')\<close> the split has at least two pieces, so the two branches
  for fewer pieces are never taken.
\<close>

definition parseItemName :: "string \<Rightarrow> ItemName" where
  "parseItemName itemName =
     (let trimmed = trim itemName in
      if str_includes trimmed ''#'' then
        (case js_split CHR ''#'' trimmed of
           b # v # _ \<Rightarrow> \<lparr>baseName = trim b, variant = Some (trim v)\<rparr>
         | [b] \<Rightarrow> \<lparr>baseName = trim b, variant = None\<rparr>
         | [] \<Rightarrow> \<lparr>baseName = trimmed, variant = None\<rparr>)
      else \<lparr>baseName = trimmed, variant = None\<rparr>)"

text \<open>\<open>s.startsWith(p)\<close>, \<open>s.endsWith(p)\<close>\<close>

definition startsWith :: "string \<Rightarrow> string \<Rightarrow> bool" where
  "startsWith s p = prefix p s"

definition endsWith :: "string \<Rightarrow> string \<Rightarrow> bool" where
  "endsWith s p = suffix p s"

text \<open>
  \<open>s.toLowerCase()\<close> on the code units U+0000 to U+00FF: the letters A to Z and the
  Latin-1 capitals U+00C0 to U+00DE (without the multiplication sign U+00D7) move up
  by 32; every other code unit stays.
\<close>

definition lower_char :: "char \<Rightarrow> char" where
  "lower_char c =
     (let n = (of_char c :: nat) in
      if (65 \<le> n \<and> n \<le> 90) \<or> (192 \<le> n \<and> n \<le> 222 \<and> n \<noteq> 215) then char_of (n + 32) else c)"

definition toLowerCase :: "string \<Rightarrow> string" where
  "toLowerCase s = map lower_char s"

section \<open>JavaScript numbers\<close>

text \<open>
  The numbers of this program are item identifiers and pixel widths. A number is an
  integer or \<open>NaN\<close>, and \<open>-0\<close> is \<open>0\<close>. The model is the program on integers of
  magnitude below \<open>2^53\<close>: above, a JavaScript number rounds, \<open>i++\<close> may stay where it
  is, and a numeral is printed rounded or with an exponent. Every theorem below whose
  result holds a parsed, counted or printed number keeps that number below \<open>2^53\<close>.
\<close>

datatype jsnum = NaN | Num int

definition is_digit :: "char \<Rightarrow> bool" where
  "is_digit c = (c \<in> set ''0123456789'')"

definition digit_val :: "char \<Rightarrow> int" where
  "digit_val c = of_char c - 48"

definition digits_val :: "string \<Rightarrow> int" where
  "digits_val ds = foldl (\<lambda>n c. 10 * n + digit_val c) 0 ds"

text \<open>
  \<open>parseInt(s, 10)\<close>: leading white space is skipped, one sign is read, then the
  longest run of decimal digits; \<open>NaN\<close> when that run is empty. What follows the
  digits is ignored. The value is the integer the digits denote, which is the
  JavaScript result below \<open>2^53\<close>.
\<close>

definition parseInt :: "string \<Rightarrow> jsnum" where
  "parseInt s =
     (let s1 = ltrim s;
          sign = (case s1 of [] \<Rightarrow> 1 | c # r \<Rightarrow> if c = CHR ''-'' then - 1 else (1::int));
          s2 = (case s1 of [] \<Rightarrow> s1
                | c # r \<Rightarrow> if c = CHR ''-'' \<or> c = CHR ''+'' then r else s1);
          z = takeWhile is_digit s2
      in if z = [] then NaN else Num (sign * digits_val z))"

text \<open>
  The template literal \<open>${width}\<close>: the decimal numeral of an integer, which is
  what JavaScript prints for an integer of magnitude below \<open>2^53\<close>.
\<close>

definition digit_char :: "nat \<Rightarrow> char" where
  "digit_char d = ''0123456789'' ! d"

function dec_nat :: "nat \<Rightarrow> string" where
  "dec_nat n = (if n < 10 then [digit_char n] else dec_nat (n div 10) @ [digit_char (n mod 10)])"
  by pat_completeness auto
termination
  by (relation "measure (\<lambda>n. n)") auto

declare dec_nat.simps [simp del]

definition num_str :: "int \<Rightarrow> string" where
  "num_str i = (if i < 0 then ''-'' @ dec_nat (nat (- i)) else dec_nat (nat i))"

section \<open>src/scraper/scrape.ts: parseItemIds\<close>

text \<open>The result type \<open>number | number[]\<close>.\<close>

datatype 'n item_ids = Scalar 'n | Seq "'n list"

text \<open>
  \<open>for (let i = start; i <= end; i++) ids.push(i)\<close> on integers below \<open>2^53\<close>, where
  \<open>i++\<close> is the successor; it stops because \<open>end + 1 - i\<close> decreases.
\<close>

function range_loop :: "int \<Rightarrow> int \<Rightarrow> jsnum list \<Rightarrow> jsnum list" where
  "range_loop i e ids = (if i \<le> e then range_loop (i + 1) e (ids @ [Num i]) else ids)"
  by pat_completeness auto
termination
  by (relation "measure (\<lambda>(i, e, ids). nat (e + 1 - i))") auto

declare range_loop.simps [simp del]

text \<open>
  The same loop on numbers: \<open>i <= end\<close> is false as soon as one side is \<open>NaN\<close>, so
  nothing is pushed.
\<close>

fun push_range :: "jsnum \<Rightarrow> jsnum \<Rightarrow> jsnum list \<Rightarrow> jsnum list" where
  "push_range (Num a) (Num b) ids = range_loop a b ids"
| "push_range _ _ ids = ids"

text \<open>
  \<open>const [start, end] = t.split('-').map((s) => parseInt(s.trim(), 10))\<close> and the loop:
  the first two pieces are the bounds, further pieces are dropped. A missing second
  piece would be \<open>undefined\<close>, which compares false like \<open>NaN\<close>.
\<close>

definition range_ids :: "string \<Rightarrow> jsnum list \<Rightarrow> jsnum list" where
  "range_ids t ids =
     (case map (\<lambda>s. parseInt (trim s)) (js_split CHR ''-'' t) of
        start # stop # _ \<Rightarrow> push_range start stop ids
      | _ \<Rightarrow> ids)"

text \<open>\<open>for (const part of parts) { ... }\<close> of the comma branch, \<open>ids\<close> threaded through.\<close>

fun parts_loop :: "string list \<Rightarrow> jsnum list \<Rightarrow> jsnum list" where
  "parts_loop [] ids = ids"
| "parts_loop (part # parts) ids =
     (let partTrimmed = trim part in
      if str_includes partTrimmed ''-'' then parts_loop parts (range_ids partTrimmed ids)
      else parts_loop parts (ids @ [parseInt partTrimmed]))"

definition parseItemIds :: "string \<Rightarrow> jsnum item_ids" where
  "parseItemIds idString =
     (let trimmed = trim idString in
      if str_includes trimmed '','' then Seq (parts_loop (js_split CHR '','' trimmed) [])
      else if str_includes trimmed ''-'' then Seq (range_ids trimmed [])
      else Scalar (parseInt trimmed))"

section \<open>src/utils/imageUrl.ts: file names and URLs\<close>

definition WIKI_IMAGE_BASE_URL :: string where
  "WIKI_IMAGE_BASE_URL = ''https://oldschool.runescape.wiki/images''"

definition DEFAULT_THUMB_WIDTH :: int where
  "DEFAULT_THUMB_WIDTH = 120"

text \<open>
  \<open>constructImageFilename(itemName, includeVariant = false)\<close>. \<open>trimmedVariant\<close> is
  \<open>undefined\<close> (\<open>None\<close>) when the split has one piece; the test
  \<open>trimmedVariant && includeVariant\<close> holds for a defined, non-empty string and a true
  flag.
\<close>

definition constructImageFilename :: "string \<Rightarrow> bool \<Rightarrow> string" where
  "constructImageFilename itemName includeVariant =
     (let name0 = trim itemName;
          name1 =
            (if str_includes name0 ''#'' then
               (case js_split CHR ''#'' name0 of
                  [] \<Rightarrow> name0
                | b # rest \<Rightarrow>
                    (let trimmedBase = trim b;
                         trimmedVariant = (case rest of [] \<Rightarrow> None | v # _ \<Rightarrow> Some (trim v))
                     in case trimmedVariant of
                          None \<Rightarrow> trimmedBase
                        | Some tv \<Rightarrow>
                            if tv \<noteq> [] \<and> includeVariant then
                              (let lowerVariant = toLowerCase tv;
                                   hasParens = (startsWith lowerVariant ''('' \<and> endsWith lowerVariant '')'')
                               in if hasParens then trimmedBase @ '' '' @ lowerVariant
                                  else trimmedBase @ '' ('' @ lowerVariant @ '')'')
                            else trimmedBase))
             else name0);
          name2 = replace_all CHR '' '' ''_'' name1;
          name3 = replace_all CHR ''&'' ''%26''
                   (replace_all CHR ''?'' ''%3F''
                     (replace_all CHR ''+'' ''%2B''
                       (replace_all CHR ''#'' ''%23''
                         (replace_all CHR '')'' ''%29''
                           (replace_all CHR ''('' ''%28''
                             (replace_all CHR 0x27 ''%27'' name2))))))
      in name3 @ ''_detail.png'')"

definition constructBaseImageFilename :: "string \<Rightarrow> string" where
  "constructBaseImageFilename itemName = constructImageFilename itemName False"

text \<open>
  \<open>ImageUrlOptions\<close>: both fields optional; \<open>no_options\<close> is the default argument
  \<open>{}\<close>.
\<close>

record ImageUrlOptions =
  width :: "int option"
  useThumb :: "bool option"

definition no_options :: ImageUrlOptions where
  "no_options = \<lparr>width = None, useThumb = None\<rparr>"

definition getItemImageUrl :: "string \<Rightarrow> ImageUrlOptions \<Rightarrow> string" where
  "getItemImageUrl itemName options =
     (let w = (case width options of None \<Rightarrow> DEFAULT_THUMB_WIDTH | Some v \<Rightarrow> v);
          thumb = (case useThumb options of None \<Rightarrow> True | Some b \<Rightarrow> b);
          filename = constructImageFilename itemName False
      in if thumb then
           WIKI_IMAGE_BASE_URL @ ''/thumb/'' @ filename @ ''/'' @ num_str w @ ''px-'' @ filename
         else WIKI_IMAGE_BASE_URL @ ''/'' @ filename)"

record ImageUrls =
  variantUrl :: string
  baseUrl :: string

definition getItemImageUrls :: "string \<Rightarrow> ImageUrlOptions \<Rightarrow> ImageUrls" where
  "getItemImageUrls itemName options =
     (let imageUrl = getItemImageUrl itemName options
      in \<lparr>variantUrl = imageUrl, baseUrl = imageUrl\<rparr>)"

section \<open>src/index.ts: the item catalogue\<close>

text \<open>
  \<open>OsrsItem\<close> has the two fields of a parsed name and three more. Identifiers are
  integers: the dataset is read from a JSON file, which holds no \<open>NaN\<close>, so \<open>===\<close> is
  equality and \<open>includes\<close> is membership. \<open>itemsData\<close>, the module's dataset, is the
  first argument of every query.
\<close>

record OsrsItem = ItemName +
  ident :: "int item_ids"
  name :: string
  imageUrl :: string

text \<open>\<open>xs.includes(v)\<close> on an array of integers.\<close>

fun array_includes :: "'a list \<Rightarrow> 'a \<Rightarrow> bool" where
  "array_includes [] v = False"
| "array_includes (x # xs) v = (x = v \<or> array_includes xs v)"

definition getItemById :: "OsrsItem list \<Rightarrow> int \<Rightarrow> OsrsItem option" where
  "getItemById itemsData i =
     find (\<lambda>item. case ident item of Seq xs \<Rightarrow> array_includes xs i | Scalar x \<Rightarrow> x = i) itemsData"

definition getItemsById :: "OsrsItem list \<Rightarrow> int \<Rightarrow> OsrsItem list" where
  "getItemsById itemsData i =
     filter (\<lambda>item. case ident item of Seq xs \<Rightarrow> array_includes xs i | Scalar x \<Rightarrow> x = i) itemsData"

record ItemFilter =
  nameContains :: "string option"
  hasVariant :: "bool option"
  limit :: "int option"

text \<open>
  \<open>getAllItems(filter?)\<close>: each \<open>if\<close> of the source rebinds \<open>results\<close>;
  \<open>filter.limit && filter.limit > 0\<close> holds for a defined, non-zero, positive limit.
\<close>

definition getAllItems :: "OsrsItem list \<Rightarrow> ItemFilter option \<Rightarrow> OsrsItem list" where
  "getAllItems itemsData fl =
     (case fl of
        None \<Rightarrow> itemsData
      | Some f \<Rightarrow>
          (let results1 =
                 (case nameContains f of
                    None \<Rightarrow> itemsData
                  | Some q \<Rightarrow>
                      (let lowerQuery = toLowerCase q
                       in filter (\<lambda>item. str_includes (toLowerCase (name item)) lowerQuery) itemsData));
               results2 =
                 (case hasVariant f of
                    None \<Rightarrow> results1
                  | Some hv \<Rightarrow>
                      filter (\<lambda>item. if hv then variant item \<noteq> None else variant item = None) results1)
           in case limit f of
                None \<Rightarrow> results2
              | Some l \<Rightarrow> if l \<noteq> 0 \<and> l > 0 then take (nat l) results2 else results2))"

section \<open>The claims' vocabulary\<close>

text \<open>A single split at the first occurrence of \<open>c\<close>: the text before it and the text after it.\<close>

definition split_first :: "char \<Rightarrow> string \<Rightarrow> string \<times> string" where
  "split_first c s = (takeWhile (\<lambda>x. x \<noteq> c) s, drop 1 (dropWhile (\<lambda>x. x \<noteq> c) s))"

text \<open>
  The identifier grammar of the specification. A part is one number or a range of two,
  each number written as decimal digits with white space allowed around it; the parts
  are joined by commas. A well-formed number stays below \<open>2^53\<close>, where a JavaScript
  number is the integer itself.
\<close>

datatype id_part = Single string | Span string string

fun render :: "id_part \<Rightarrow> string" where
  "render (Single a) = a"
| "render (Span a b) = a @ ''-'' @ b"

fun comma_join :: "string list \<Rightarrow> string" where
  "comma_join [] = []"
| "comma_join [p] = p"
| "comma_join (p # q # ps) = p @ '','' @ comma_join (q # ps)"

definition padded_number :: "string \<Rightarrow> bool" where
  "padded_number s =
     (trim s \<noteq> [] \<and> list_all is_digit (trim s) \<and> digits_val (trim s) < 2 ^ 53)"

definition number_of :: "string \<Rightarrow> int" where
  "number_of s = digits_val (trim s)"

fun wf_part :: "id_part \<Rightarrow> bool" where
  "wf_part (Single a) = padded_number a"
| "wf_part (Span a b) = (padded_number a \<and> padded_number b)"

text \<open>The expansion of a part: the number, or the inclusive ascending range.\<close>

fun expand :: "id_part \<Rightarrow> int list" where
  "expand (Single a) = [number_of a]"
| "expand (Span a b) = [number_of a .. number_of b]"

text \<open>
  What the grammar assigns to a list of parts: the scalar for one single number, the
  concatenated expansions otherwise.
\<close>

fun grammar_ids :: "id_part list \<Rightarrow> jsnum item_ids" where
  "grammar_ids [Single a] = Scalar (Num (number_of a))"
| "grammar_ids ps = Seq (map Num (concat (map expand ps)))"

text \<open>
  Numeric text that is not parseable as an integer: after the white space and one
  optional sign there is no digit.
\<close>

definition malformed_number :: "string \<Rightarrow> bool" where
  "malformed_number s =
     (case ltrim s of
        [] \<Rightarrow> True
      | c # r \<Rightarrow>
          if c = CHR ''-'' \<or> c = CHR ''+'' then (case r of [] \<Rightarrow> True | d # _ \<Rightarrow> \<not> is_digit d)
          else \<not> is_digit c)"

fun has_NaN :: "jsnum item_ids \<Rightarrow> bool" where
  "has_NaN (Scalar n) = (n = NaN)"
| "has_NaN (Seq ns) = (NaN \<in> set ns)"

text \<open>
  The encoding of one character of a base name: a space becomes an underscore, the
  seven listed characters their percent code, every other character itself.
\<close>

definition encode_char :: "char \<Rightarrow> string" where
  "encode_char c =
     (if c = CHR '' '' then ''_''
      else if c = CHR 0x27 then ''%27''
      else if c = CHR ''('' then ''%28''
      else if c = CHR '')'' then ''%29''
      else if c = CHR ''#'' then ''%23''
      else if c = CHR ''+'' then ''%2B''
      else if c = CHR ''?'' then ''%3F''
      else if c = CHR ''&'' then ''%26''
      else [c])"

text \<open>The detail file name of a raw name: the encoded base name and the suffix.\<close>

definition detail_filename :: "string \<Rightarrow> string" where
  "detail_filename rawName =
     concat (map encode_char (baseName (parseItemName rawName))) @ ''_detail.png''"

text \<open>An identifier field matches a query: the scalar is the query, or the sequence holds it.\<close>

fun id_matches :: "int item_ids \<Rightarrow> int \<Rightarrow> bool" where
  "id_matches (Scalar x) q = (x = q)"
| "id_matches (Seq xs) q = (q \<in> set xs)"

text \<open>
  The conjunction of the predicates of a filter: the name contains the query when both
  are put in lower case, and the variant is present or absent as asked.
\<close>

definition filter_keeps :: "ItemFilter \<Rightarrow> OsrsItem \<Rightarrow> bool" where
  "filter_keeps f item =
     ((case nameContains f of
         None \<Rightarrow> True
       | Some q \<Rightarrow> str_includes (toLowerCase (name item)) (toLowerCase q))
      \<and> (case hasVariant f of
            None \<Rightarrow> True
          | Some hv \<Rightarrow> (if hv then variant item \<noteq> None else variant item = None)))"

text \<open>A small dataset for the examples.\<close>

definition ex_glory :: OsrsItem where
  "ex_glory = \<lparr>baseName = ''Amulet of glory'', variant = Some ''1'', ident = Seq [1704, 1705, 1706],
     name = ''Amulet of glory#1'', imageUrl = ''''\<rparr>"

definition ex_bludgeon :: OsrsItem where
  "ex_bludgeon = \<lparr>baseName = ''Abyssal bludgeon'', variant = None, ident = Scalar 13263,
     name = ''Abyssal bludgeon'', imageUrl = ''''\<rparr>"

definition ex_glory4 :: OsrsItem where
  "ex_glory4 = \<lparr>baseName = ''Amulet of glory'', variant = Some ''4'', ident = Seq [1712, 1705],
     name = ''Amulet of Glory#4'', imageUrl = ''''\<rparr>"

section \<open>Strings: basic facts\<close>

lemma str_includes_iff: "str_includes s q \<longleftrightarrow> (\<exists>pre post. s = pre @ q @ post)"
proof (induction s)
  case Nil
  then show ?case by auto
next
  case (Cons c cs)
  show ?case
  proof
    assume "str_includes (c # cs) q"
    then consider "prefix q (c # cs)" | "str_includes cs q" by auto
    then show "\<exists>pre post. c # cs = pre @ q @ post"
    proof cases
      case 1
      then obtain post where "c # cs = q @ post" by (auto simp: prefix_def)
      then have "c # cs = [] @ q @ post" by simp
      then show ?thesis by blast
    next
      case 2
      with Cons.IH obtain pre post where "cs = pre @ q @ post" by blast
      then have "c # cs = (c # pre) @ q @ post" by simp
      then show ?thesis by blast
    qed
  next
    assume "\<exists>pre post. c # cs = pre @ q @ post"
    then obtain pre post where e: "c # cs = pre @ q @ post" by blast
    show "str_includes (c # cs) q"
    proof (cases pre)
      case Nil
      with e have "prefix q (c # cs)" by (simp add: prefix_def)
      then show ?thesis by simp
    next
      case (Cons a pre')
      with e have "cs = pre' @ q @ post" by simp
      with Cons.IH have "str_includes cs q" by blast
      then show ?thesis by simp
    qed
  qed
qed

lemma str_includes_char: "str_includes s [c] \<longleftrightarrow> c \<in> set s"
  by (induction s) auto

lemma js_split_not_Nil: "js_split c s \<noteq> []"
  by (induction s) (auto split: list.splits)

lemma js_split_no_sep: "c \<notin> set s \<Longrightarrow> js_split c s = [s]"
  by (induction s) auto

lemma js_split_append_sep:
  "c \<notin> set a \<Longrightarrow> js_split c (a @ c # r) = a # js_split c r"
  by (induction a) auto

section \<open>Trimming and splitting\<close>

lemma not_ws_hash: "\<not> is_ws CHR ''#''"
  by (simp add: is_ws_def)

lemma ltrim_ws_append: "\<forall>x\<in>set w. is_ws x \<Longrightarrow> ltrim (w @ p) = ltrim p"
  by (simp add: ltrim_def)

lemma rtrim_append_ws: "\<forall>x\<in>set w. is_ws x \<Longrightarrow> rtrim (p @ w) = rtrim p"
proof -
  assume "\<forall>x\<in>set w. is_ws x"
  then have "dropWhile is_ws (rev w @ rev p) = dropWhile is_ws (rev p)"
    by (intro dropWhile_append2) simp
  then show ?thesis by (simp add: rtrim_def)
qed

lemma ltrim_decomp: "\<exists>w. (\<forall>x\<in>set w. is_ws x) \<and> s = w @ ltrim s"
proof -
  have "s = takeWhile is_ws s @ ltrim s" by (simp add: ltrim_def)
  moreover have "\<forall>x\<in>set (takeWhile is_ws s). is_ws x" by (auto dest: set_takeWhileD)
  ultimately show ?thesis by blast
qed

lemma rtrim_decomp: "\<exists>w. (\<forall>x\<in>set w. is_ws x) \<and> s = rtrim s @ w"
proof -
  have "rev s = takeWhile is_ws (rev s) @ dropWhile is_ws (rev s)" by simp
  then have "rev (rev s) = rev (takeWhile is_ws (rev s) @ dropWhile is_ws (rev s))" by simp
  then have "s = rtrim s @ rev (takeWhile is_ws (rev s))"
    unfolding rev_append rtrim_def by simp
  moreover have "\<forall>x\<in>set (rev (takeWhile is_ws (rev s))). is_ws x" by (auto dest: set_takeWhileD)
  ultimately show ?thesis by blast
qed

lemma trim_ws_append: "\<forall>x\<in>set w. is_ws x \<Longrightarrow> trim (w @ p) = trim p"
  by (simp add: trim_def ltrim_ws_append)

lemma trim_append_ws:
  assumes "\<forall>x\<in>set w. is_ws x"
  shows "trim (p @ w) = trim p"
proof (cases "\<forall>x\<in>set p. is_ws x")
  case True
  with assms have "ltrim (p @ w) = []" "ltrim p = []" by (simp_all add: ltrim_def)
  then show ?thesis by (simp add: trim_def)
next
  case False
  then have "ltrim (p @ w) = ltrim p @ w" by (auto simp: ltrim_def)
  with assms show ?thesis by (simp add: trim_def rtrim_append_ws)
qed

lemma trim_ltrim: "trim (ltrim s) = trim s"
  by (simp add: trim_def ltrim_def)

lemma trim_rtrim: "trim (rtrim s) = trim s"
proof -
  obtain w where "\<forall>x\<in>set w. is_ws x" "s = rtrim s @ w" using rtrim_decomp by blast
  then show ?thesis using trim_append_ws by metis
qed

lemma trim_trim: "trim (trim s) = trim s"
proof -
  have "trim (trim s) = trim (rtrim (ltrim s))" by (simp add: trim_def)
  also have "\<dots> = trim s" by (simp add: trim_rtrim trim_ltrim)
  finally show ?thesis .
qed

lemma set_ltrim: "\<not> is_ws c \<Longrightarrow> c \<in> set (ltrim s) \<longleftrightarrow> c \<in> set s"
proof -
  assume c: "\<not> is_ws c"
  obtain w where "\<forall>x\<in>set w. is_ws x" "s = w @ ltrim s" using ltrim_decomp by blast
  then have "set s = set w \<union> set (ltrim s)" "c \<notin> set w" using c by (metis set_append, blast)
  then show ?thesis by simp
qed

lemma set_rtrim: "\<not> is_ws c \<Longrightarrow> c \<in> set (rtrim s) \<longleftrightarrow> c \<in> set s"
proof -
  assume c: "\<not> is_ws c"
  obtain w where "\<forall>x\<in>set w. is_ws x" "s = rtrim s @ w" using rtrim_decomp by blast
  then have "set s = set (rtrim s) \<union> set w" "c \<notin> set w" using c by (metis set_append, blast)
  then show ?thesis by simp
qed

lemma set_trim: "\<not> is_ws c \<Longrightarrow> c \<in> set (trim s) \<longleftrightarrow> c \<in> set s"
  by (simp add: trim_def set_rtrim set_ltrim)

lemma js_split_ws_append:
  "\<forall>x\<in>set w. is_ws x \<Longrightarrow> \<not> is_ws c \<Longrightarrow>
   js_split c (w @ t) = (w @ hd (js_split c t)) # tl (js_split c t)"
proof (induction w)
  case Nil
  then show ?case using js_split_not_Nil[of c t] by simp
next
  case (Cons x w)
  then have "x \<noteq> c" by auto
  with Cons show ?case by simp
qed

lemma js_split_append_ws:
  "\<forall>x\<in>set w. is_ws x \<Longrightarrow> \<not> is_ws c \<Longrightarrow>
   js_split c (t @ w) = butlast (js_split c t) @ [last (js_split c t) @ w]"
proof (induction t)
  case Nil
  then have "c \<notin> set w" by auto
  then show ?case by (simp add: js_split_no_sep)
next
  case (Cons x t)
  then show ?case using js_split_not_Nil[of c t] 
    by (auto split: list.splits simp: butlast_append)
qed

lemma map_trim_split_ltrim:
  assumes "\<not> is_ws c"
  shows "map trim (js_split c (ltrim s)) = map trim (js_split c s)"
proof -
  obtain w where w: "\<forall>x\<in>set w. is_ws x" "s = w @ ltrim s" using ltrim_decomp by blast
  let ?X = "js_split c (ltrim s)"
  have "js_split c s = (w @ hd ?X) # tl ?X"
    using js_split_ws_append[OF w(1) assms, of "ltrim s"] w(2) by simp
  then have "map trim (js_split c s) = trim (hd ?X) # map trim (tl ?X)"
    using w(1) by (simp add: trim_ws_append)
  also have "\<dots> = map trim ?X" using js_split_not_Nil[of c "ltrim s"] by (cases ?X) auto
  finally show ?thesis by simp
qed

lemma map_trim_split_rtrim:
  assumes "\<not> is_ws c"
  shows "map trim (js_split c (rtrim s)) = map trim (js_split c s)"
proof -
  obtain w where w: "\<forall>x\<in>set w. is_ws x" "s = rtrim s @ w" using rtrim_decomp by blast
  let ?X = "js_split c (rtrim s)"
  have "js_split c s = butlast ?X @ [last ?X @ w]"
    using js_split_append_ws[OF w(1) assms, of "rtrim s"] w(2) by simp
  then have "map trim (js_split c s) = map trim (butlast ?X) @ [trim (last ?X)]"
    using w(1) by (simp add: trim_append_ws)
  also have "\<dots> = map trim (butlast ?X @ [last ?X])" by simp
  also have "\<dots> = map trim ?X" using js_split_not_Nil[of c "rtrim s"] by simp
  finally show ?thesis by simp
qed

lemma map_trim_split_trim:
  "\<not> is_ws c \<Longrightarrow> map trim (js_split c (trim s)) = map trim (js_split c s)"
  by (simp add: trim_def map_trim_split_rtrim map_trim_split_ltrim)

lemmas trim_eval = trim_def ltrim_def rtrim_def is_ws_def

lemma parseItemName_pieces:
  assumes "map trim (js_split CHR ''#'' s) = p # q # rest"
  shows "parseItemName s = \<lparr>baseName = p, variant = Some q\<rparr>"
proof -
  have m: "map trim (js_split CHR ''#'' (trim s)) = p # q # rest"
    using assms by (simp add: map_trim_split_trim not_ws_hash)
  then obtain b v r where bv: "js_split CHR ''#'' (trim s) = b # v # r" "trim b = p" "trim v = q"
    by (auto simp: map_eq_Cons_conv)
  have "CHR ''#'' \<in> set (trim s)"
  proof (rule ccontr)
    assume "CHR ''#'' \<notin> set (trim s)"
    then have "js_split CHR ''#'' (trim s) = [trim s]" by (rule js_split_no_sep)
    with bv show False by simp
  qed
  then show ?thesis using bv by (simp add: parseItemName_def Let_def str_includes_char)
qed

lemma parseItemName_no_hash:
  "CHR ''#'' \<notin> set s \<Longrightarrow> parseItemName s = \<lparr>baseName = trim s, variant = None\<rparr>"
  by (simp add: parseItemName_def Let_def str_includes_char set_trim not_ws_hash)

lemma parseItemName_hash:
  assumes "CHR ''#'' \<notin> set a"
  shows "parseItemName (a @ CHR ''#'' # r) =
         \<lparr>baseName = trim a, variant = Some (trim (hd (js_split CHR ''#'' r)))\<rparr>"
proof -
  obtain v vs where v: "js_split CHR ''#'' r = v # vs"
    using js_split_not_Nil[of "CHR ''#''" r] by (cases "js_split CHR ''#'' r") auto
  have "map trim (js_split CHR ''#'' (a @ CHR ''#'' # r)) = trim a # trim v # map trim vs"
    using assms v by (simp add: js_split_append_sep)
  then show ?thesis using v by (simp add: parseItemName_pieces)
qed

lemma takeWhile_no_sep: "c \<notin> set s \<Longrightarrow> takeWhile (\<lambda>x. x \<noteq> c) s = s"
  by (induction s) auto

lemma takeWhile_to_sep: "c \<notin> set a \<Longrightarrow> takeWhile (\<lambda>x. x \<noteq> c) (a @ c # r) = a"
  by (induction a) auto

lemma baseName_before_hash:
  "baseName (parseItemName s) = trim (takeWhile (\<lambda>c. c \<noteq> CHR ''#'') s)"
proof (cases "CHR ''#'' \<in> set s")
  case True
  then obtain a r where s: "s = a @ CHR ''#'' # r" "CHR ''#'' \<notin> set a"
    by (auto dest: split_list_first)
  show ?thesis
    unfolding s(1) by (simp only: takeWhile_to_sep[OF s(2)] parseItemName_hash[OF s(2)])
      simp
next
  case False
  show ?thesis
    by (simp only: takeWhile_no_sep[OF False] parseItemName_no_hash[OF False]) simp
qed

section \<open>parseItemName: claims C1 and C2\<close>

text \<open>
  C1, as stated, asks for a single split at the first \<open>#\<close>, the variant being all the
  text after it. On \<open>a#b#c\<close> the variant is \<open>b\<close>, not \<open>b#c\<close>: \<open>split\<close> cuts at every
  \<open>#\<close> and the destructuring keeps the first two pieces.
\<close>

theorem parseItemName_first_hash_counterexample:
  "parseItemName ''a#b#c'' = \<lparr>baseName = ''a'', variant = Some ''b''\<rparr>
   \<and> split_first CHR ''#'' ''a#b#c'' = (''a'', ''b#c'')
   \<and> variant (parseItemName ''a#b#c'') \<noteq> Some (trim (snd (split_first CHR ''#'' ''a#b#c'')))"
  by (simp add: parseItemName_def split_first_def trim_eval)

text \<open>
  C1, amended: for every raw name with more than one \<open>#\<close>, the base name is the trimmed
  text before the first \<open>#\<close> and the variant is the trimmed text between the first and
  the second \<open>#\<close>; the text from the second \<open>#\<close> on is dropped.
\<close>

theorem parseItemName_second_hash_cut:
  assumes "CHR ''#'' \<notin> set a" and "CHR ''#'' \<notin> set b"
  shows "parseItemName (a @ ''#'' @ b @ ''#'' @ c) = \<lparr>baseName = trim a, variant = Some (trim b)\<rparr>"
proof -
  have "js_split CHR ''#'' (b @ CHR ''#'' # c) = b # js_split CHR ''#'' c"
    using assms(2) by (rule js_split_append_sep)
  then show ?thesis using parseItemName_hash[OF assms(1), of "b @ CHR ''#'' # c"] by simp
qed

theorem parseItemName_second_hash_cut_witness:
  "CHR ''#'' \<notin> set '' Amulet of glory '' \<and> CHR ''#'' \<notin> set '' 1 ''
   \<and> parseItemName '' Amulet of glory # 1 #2 '' = \<lparr>baseName = ''Amulet of glory'', variant = Some ''1''\<rparr>"
  using parseItemName_second_hash_cut[of "'' Amulet of glory ''" "'' 1 ''" "''2 ''"]
  by (simp add: trim_eval)

text \<open>
  C2, as stated, gives a name that ends in \<open>#\<close> no variant. The variant of \<open>a#\<close> is
  present: it is the empty string.
\<close>

theorem parseItemName_empty_variant_counterexample:
  "parseItemName ''a#'' = \<lparr>baseName = ''a'', variant = Some ''''\<rparr>"
  by (simp add: parseItemName_def trim_eval)

text \<open>
  C2, amended: parseItemName returns a variant exactly when the raw name contains a
  \<open>#\<close>; for a raw name with no \<open>#\<close> the variant is absent and the base name is the
  whole input trimmed; when only white space follows the one \<open>#\<close>, the variant is the
  empty string.
\<close>

theorem parseItemName_variant_present:
  "(variant (parseItemName s) \<noteq> None \<longleftrightarrow> CHR ''#'' \<in> set s)
   \<and> (CHR ''#'' \<notin> set s \<longrightarrow> parseItemName s = \<lparr>baseName = trim s, variant = None\<rparr>)
   \<and> (CHR ''#'' \<notin> set a \<and> (\<forall>x\<in>set w. is_ws x) \<longrightarrow>
        parseItemName (a @ ''#'' @ w) = \<lparr>baseName = trim a, variant = Some ''''\<rparr>)"
proof (intro conjI impI)
  show "variant (parseItemName s) \<noteq> None \<longleftrightarrow> CHR ''#'' \<in> set s"
  proof (cases "CHR ''#'' \<in> set s")
    case True
    then obtain a r where "s = a @ CHR ''#'' # r" "CHR ''#'' \<notin> set a"
      by (auto dest: split_list_first)
    then show ?thesis using True by (simp add: parseItemName_hash)
  next
    case False
    then show ?thesis by (simp add: parseItemName_no_hash)
  qed
next
  assume "CHR ''#'' \<notin> set s"
  then show "parseItemName s = \<lparr>baseName = trim s, variant = None\<rparr>"
    by (rule parseItemName_no_hash)
next
  assume h: "CHR ''#'' \<notin> set a \<and> (\<forall>x\<in>set w. is_ws x)"
  then have "CHR ''#'' \<notin> set w" using not_ws_hash by auto
  then have "js_split CHR ''#'' w = [w]" by (rule js_split_no_sep)
  moreover have "trim w = []"
  proof -
    from h have "ltrim w = []" by (simp add: ltrim_def)
    then show ?thesis by (simp add: trim_def rtrim_def)
  qed
  ultimately show "parseItemName (a @ ''#'' @ w) = \<lparr>baseName = trim a, variant = Some ''''\<rparr>"
    using parseItemName_hash[of a w] h by simp
qed

theorem parseItemName_variant_present_witness:
  "variant (parseItemName ''Amulet of glory#1'') \<noteq> None \<and> CHR ''#'' \<in> set ''Amulet of glory#1''
   \<and> CHR ''#'' \<notin> set ''Abyssal bludgeon''
   \<and> parseItemName ''Abyssal bludgeon'' = \<lparr>baseName = ''Abyssal bludgeon'', variant = None\<rparr>
   \<and> CHR ''#'' \<notin> set ''Foo'' \<and> list_all is_ws '' ''
   \<and> parseItemName ''Foo# '' = \<lparr>baseName = ''Foo'', variant = Some ''''\<rparr>"
  using parseItemName_variant_present[of "''Amulet of glory#1''" "''Foo''" "'' ''"]
    parseItemName_variant_present[of "''Abyssal bludgeon''" "''''" "''''"]
  by (simp add: trim_eval)

section \<open>The encoding passes\<close>

lemma replace_all_concat_map:
  "replace_all c r (concat (map f s)) = concat (map (\<lambda>x. replace_all c r (f x)) s)"
  by (induction s) (simp_all add: replace_all_def)

lemma replace_all_as_concat_map:
  "replace_all c r s = concat (map (\<lambda>x. replace_all c r [x]) s)"
  by (simp add: replace_all_def)

lemma encode_chain_char:
  "replace_all CHR ''&'' ''%26''
     (replace_all CHR ''?'' ''%3F''
       (replace_all CHR ''+'' ''%2B''
         (replace_all CHR ''#'' ''%23''
           (replace_all CHR '')'' ''%29''
             (replace_all CHR ''('' ''%28''
               (replace_all CHR 0x27 ''%27''
                 (replace_all CHR '' '' ''_'' [x]))))))) = encode_char x"
  by (simp add: replace_all_def encode_char_def)

lemma encode_chain:
  "replace_all CHR ''&'' ''%26''
     (replace_all CHR ''?'' ''%3F''
       (replace_all CHR ''+'' ''%2B''
         (replace_all CHR ''#'' ''%23''
           (replace_all CHR '')'' ''%29''
             (replace_all CHR ''('' ''%28''
               (replace_all CHR 0x27 ''%27''
                 (replace_all CHR '' '' ''_'' s))))))) = concat (map encode_char s)"
proof -
  have "replace_all CHR '' '' ''_'' s = concat (map (\<lambda>x. replace_all CHR '' '' ''_'' [x]) s)"
    by (rule replace_all_as_concat_map)
  then show ?thesis
    by (simp only: replace_all_concat_map encode_chain_char)
qed

lemma constructImageFilename_default:
  "constructImageFilename itemName False = detail_filename itemName"
proof -
  have "constructImageFilename itemName False =
        replace_all CHR ''&'' ''%26''
         (replace_all CHR ''?'' ''%3F''
           (replace_all CHR ''+'' ''%2B''
             (replace_all CHR ''#'' ''%23''
               (replace_all CHR '')'' ''%29''
                 (replace_all CHR ''('' ''%28''
                   (replace_all CHR 0x27 ''%27''
                     (replace_all CHR '' '' ''_'' (baseName (parseItemName itemName)))))))))
        @ ''_detail.png''"
    by (simp add: constructImageFilename_def parseItemName_def Let_def split: list.splits option.splits)
  then show ?thesis by (simp only: encode_chain detail_filename_def)
qed

section \<open>File names and URLs: claims C5, C6 and C7\<close>

text \<open>
  C5: for every raw name, constructImageFilename with its default argument returns the
  base name (variant dropped, trimmed) with each character encoded on its own (a space
  as an underscore, the seven listed characters as their percent code, every other
  character unchanged, nothing encoded twice), followed by \<open>_detail.png\<close>.
\<close>

theorem constructImageFilename_encoding:
  "constructImageFilename itemName False =
     concat (map encode_char (baseName (parseItemName itemName))) @ ''_detail.png''
   \<and> baseName (parseItemName itemName) = trim (takeWhile (\<lambda>c. c \<noteq> CHR ''#'') itemName)"
  using constructImageFilename_default[of itemName] baseName_before_hash[of itemName]
  by (simp only: detail_filename_def simp_thms)

theorem constructImageFilename_encoding_witness:
  "constructImageFilename (CHR 0x27 # ''24-carat'' @ CHR 0x27 # '' sword'') False
     = ''%2724-carat%27_sword_detail.png''
   \<and> constructImageFilename ''Adamant arrow#(p++)'' False = ''Adamant_arrow_detail.png''
   \<and> constructImageFilename ''Abyssal bludgeon'' False = ''Abyssal_bludgeon_detail.png''"
  using constructImageFilename_encoding[of "CHR 0x27 # ''24-carat'' @ CHR 0x27 # '' sword''"]
    constructImageFilename_encoding[of "''Adamant arrow#(p++)''"]
    constructImageFilename_encoding[of "''Abyssal bludgeon''"]
  by (simp add: parseItemName_def encode_char_def trim_def ltrim_def rtrim_def is_ws_def)

text \<open>
  C6: for every raw name and options, getItemImageUrl returns the thumbnail URL
  \<open>https://oldschool.runescape.wiki/images/thumb/{filename}/{width}px-{filename}\<close> unless
  \<open>useThumb\<close> is false, with width 120 when none is given, and
  \<open>https://oldschool.runescape.wiki/images/{filename}\<close> when \<open>useThumb\<close> is false, the
  file name being the detail file name of the raw name. A given width is an integer
  of magnitude below \<open>2^53\<close>, where the template literal prints the decimal numeral.
\<close>

theorem getItemImageUrl_format:
  assumes "\<forall>w. width options = Some w \<longrightarrow> \<bar>w\<bar> < 2 ^ 53"
  shows "getItemImageUrl itemName options =
     (if useThumb options = Some False then
        ''https://oldschool.runescape.wiki/images/'' @ detail_filename itemName
      else
        ''https://oldschool.runescape.wiki/images/thumb/'' @ detail_filename itemName @ ''/''
          @ num_str (case width options of None \<Rightarrow> 120 | Some w \<Rightarrow> w) @ ''px-''
          @ detail_filename itemName)"
  by (simp add: getItemImageUrl_def constructImageFilename_default WIKI_IMAGE_BASE_URL_def
      DEFAULT_THUMB_WIDTH_def Let_def split: option.splits)

theorem getItemImageUrl_format_witness:
  "getItemImageUrl ''Abyssal bludgeon'' no_options =
     ''https://oldschool.runescape.wiki/images/thumb/Abyssal_bludgeon_detail.png/120px-Abyssal_bludgeon_detail.png''
   \<and> getItemImageUrl ''Abyssal bludgeon'' \<lparr>width = Some 96, useThumb = None\<rparr> =
     ''https://oldschool.runescape.wiki/images/thumb/Abyssal_bludgeon_detail.png/96px-Abyssal_bludgeon_detail.png''
   \<and> getItemImageUrl ''Abyssal bludgeon'' \<lparr>width = None, useThumb = Some False\<rparr> =
     ''https://oldschool.runescape.wiki/images/Abyssal_bludgeon_detail.png''"
  using getItemImageUrl_format[of no_options "''Abyssal bludgeon''"]
    getItemImageUrl_format[of "\<lparr>width = Some 96, useThumb = None\<rparr>" "''Abyssal bludgeon''"]
    getItemImageUrl_format[of "\<lparr>width = None, useThumb = Some False\<rparr>" "''Abyssal bludgeon''"]
  by (simp add: no_options_def detail_filename_def parseItemName_def encode_char_def
      trim_def ltrim_def rtrim_def is_ws_def num_str_def dec_nat.simps digit_char_def)

text \<open>
  C7: for every raw name and options, getItemImageUrls returns the same string as
  variantUrl and as baseUrl, and constructBaseImageFilename returns the string that
  constructImageFilename returns on the same name.
\<close>

theorem image_url_builders_agree:
  "variantUrl (getItemImageUrls itemName options) = baseUrl (getItemImageUrls itemName options)
   \<and> variantUrl (getItemImageUrls itemName options) = getItemImageUrl itemName options
   \<and> constructBaseImageFilename itemName = constructImageFilename itemName False"
  by (simp add: getItemImageUrls_def constructBaseImageFilename_def Let_def)

theorem image_url_builders_agree_witness:
  "variantUrl (getItemImageUrls ''Amulet of glory#1'' no_options) =
     ''https://oldschool.runescape.wiki/images/thumb/Amulet_of_glory_detail.png/120px-Amulet_of_glory_detail.png''
   \<and> baseUrl (getItemImageUrls ''Amulet of glory#1'' no_options) =
     ''https://oldschool.runescape.wiki/images/thumb/Amulet_of_glory_detail.png/120px-Amulet_of_glory_detail.png''
   \<and> constructBaseImageFilename ''Amulet of glory#1'' = ''Amulet_of_glory_detail.png''"
proof -
  note agree = image_url_builders_agree[of "''Amulet of glory#1''" no_options]
  have f: "constructImageFilename ''Amulet of glory#1'' False = ''Amulet_of_glory_detail.png''"
    by (simp add: constructImageFilename_def replace_all_def trim_def ltrim_def rtrim_def is_ws_def)
  have u: "getItemImageUrl ''Amulet of glory#1'' no_options =
     ''https://oldschool.runescape.wiki/images/thumb/Amulet_of_glory_detail.png/120px-Amulet_of_glory_detail.png''"
    by (simp add: getItemImageUrl_def f no_options_def WIKI_IMAGE_BASE_URL_def
        DEFAULT_THUMB_WIDTH_def num_str_def dec_nat.simps digit_char_def)
  from agree have "variantUrl (getItemImageUrls ''Amulet of glory#1'' no_options) =
      getItemImageUrl ''Amulet of glory#1'' no_options"
    and "baseUrl (getItemImageUrls ''Amulet of glory#1'' no_options) =
      getItemImageUrl ''Amulet of glory#1'' no_options"
    and "constructBaseImageFilename ''Amulet of glory#1'' =
      constructImageFilename ''Amulet of glory#1'' False"
    by metis+
  then show ?thesis by (simp only: f u)
qed

section \<open>Searching and filtering\<close>

lemma find_as_filter: "find P xs = (case filter P xs of [] \<Rightarrow> None | x # _ \<Rightarrow> Some x)"
  by (induction xs) auto

lemma find_Some_first:
  "find P xs = Some x \<Longrightarrow> \<exists>pre post. xs = pre @ x # post \<and> P x \<and> (\<forall>y\<in>set pre. \<not> P y)"
proof (induction xs)
  case Nil
  then show ?case by simp
next
  case (Cons a xs)
  show ?case
  proof (cases "P a")
    case True
    with Cons.prems have "x = a" by simp
    with True have "a # xs = [] @ x # xs \<and> P x \<and> (\<forall>y\<in>set []. \<not> P y)" by simp
    then show ?thesis by blast
  next
    case False
    with Cons.prems have "find P xs = Some x" by simp
    with Cons.IH obtain pre post where
      "xs = pre @ x # post" "P x" "\<forall>y\<in>set pre. \<not> P y" by blast
    with False have "a # xs = (a # pre) @ x # post \<and> P x \<and> (\<forall>y\<in>set (a # pre). \<not> P y)"
      by simp
    then show ?thesis by blast
  qed
qed

lemma array_includes_set: "array_includes xs v \<longleftrightarrow> v \<in> set xs"
  by (induction xs) auto

lemma id_test_matches:
  "(case ident item of Seq xs \<Rightarrow> array_includes xs i | Scalar x \<Rightarrow> x = i) = id_matches (ident item) i"
  by (cases "ident item") (simp_all add: array_includes_set)

lemma getItemById_find: "getItemById d q = find (\<lambda>item. id_matches (ident item) q) d"
  by (simp add: getItemById_def id_test_matches)

lemma getItemsById_filter: "getItemsById d q = filter (\<lambda>item. id_matches (ident item) q) d"
  by (simp add: getItemsById_def id_test_matches)

section \<open>The catalogue: claims C8 and C9\<close>

text \<open>
  C8: for every dataset and query, getItemsById returns exactly the matching items in
  dataset order (an item matches when its scalar is the query or its sequence holds
  it); getItemById returns the first element of that list, which is the first matching
  item of the dataset, and returns nothing exactly when no item matches.
\<close>

theorem getItemById_first_match:
  "getItemsById d q = filter (\<lambda>item. id_matches (ident item) q) d
   \<and> getItemById d q = (case getItemsById d q of [] \<Rightarrow> None | item # _ \<Rightarrow> Some item)
   \<and> (getItemById d q = None \<longleftrightarrow> (\<forall>item\<in>set d. \<not> id_matches (ident item) q))
   \<and> (\<forall>item. getItemById d q = Some item \<longrightarrow>
         (\<exists>pre post. d = pre @ item # post \<and> id_matches (ident item) q
            \<and> (\<forall>x\<in>set pre. \<not> id_matches (ident x) q)))"
proof (intro conjI allI impI)
  show "getItemsById d q = filter (\<lambda>item. id_matches (ident item) q) d"
    by (rule getItemsById_filter)
  show "getItemById d q = (case getItemsById d q of [] \<Rightarrow> None | item # _ \<Rightarrow> Some item)"
    by (simp only: getItemById_find getItemsById_filter find_as_filter)
  show "getItemById d q = None \<longleftrightarrow> (\<forall>item\<in>set d. \<not> id_matches (ident item) q)"
    by (auto simp: getItemById_find find_None_iff)
next
  fix item
  assume "getItemById d q = Some item"
  then have "find (\<lambda>item. id_matches (ident item) q) d = Some item"
    by (simp only: getItemById_find)
  then show "\<exists>pre post. d = pre @ item # post \<and> id_matches (ident item) q
            \<and> (\<forall>x\<in>set pre. \<not> id_matches (ident x) q)"
    by (rule find_Some_first)
qed

theorem getItemById_first_match_witness:
  "getItemsById [ex_bludgeon, ex_glory, ex_glory4] 1705 = [ex_glory, ex_glory4]
   \<and> getItemById [ex_bludgeon, ex_glory, ex_glory4] 1705 = Some ex_glory
   \<and> [ex_bludgeon, ex_glory, ex_glory4] = [ex_bludgeon] @ ex_glory # [ex_glory4]
   \<and> id_matches (ident ex_glory) 1705 \<and> \<not> id_matches (ident ex_bludgeon) 1705
   \<and> getItemById [ex_bludgeon, ex_glory, ex_glory4] 99999999 = None
   \<and> getItemById [ex_bludgeon, ex_glory, ex_glory4] 13263 = Some ex_bludgeon"
  using getItemById_first_match[of "[ex_bludgeon, ex_glory, ex_glory4]" 1705]
    getItemById_first_match[of "[ex_bludgeon, ex_glory, ex_glory4]" 99999999]
    getItemById_first_match[of "[ex_bludgeon, ex_glory, ex_glory4]" 13263]
  by (simp add: ex_glory_def ex_bludgeon_def ex_glory4_def)

lemma getAllItems_filter:
  "getAllItems d (Some f) =
     (let kept = filter (filter_keeps f) d
      in case limit f of None \<Rightarrow> kept | Some l \<Rightarrow> if 0 < l then take (nat l) kept else kept)"
proof -
  have k: "filter (filter_keeps f) d =
     (case hasVariant f of
        None \<Rightarrow> (case nameContains f of None \<Rightarrow> d
                  | Some q \<Rightarrow> filter (\<lambda>item. str_includes (toLowerCase (name item)) (toLowerCase q)) d)
      | Some hv \<Rightarrow>
          filter (\<lambda>item. if hv then variant item \<noteq> None else variant item = None)
            (case nameContains f of None \<Rightarrow> d
             | Some q \<Rightarrow> filter (\<lambda>item. str_includes (toLowerCase (name item)) (toLowerCase q)) d))"
    by (cases "nameContains f"; cases "hasVariant f") (simp_all add: filter_keeps_def[abs_def])
  show ?thesis
    unfolding k by (cases "nameContains f"; cases "hasVariant f"; cases "limit f")
      (simp_all add: getAllItems_def Let_def)
qed

text \<open>
  C9: for every dataset and filter, getAllItems returns the items that satisfy all the
  given predicates (the name contains the query case-insensitively; the variant is
  present for hasVariant true and absent for hasVariant false), in dataset order, cut
  to the first \<open>limit\<close> of them when a positive limit is given; with no filter it
  returns the dataset.
\<close>

theorem getAllItems_conjunction:
  "getAllItems d None = d
   \<and> getAllItems d (Some f) =
       (let kept = filter (filter_keeps f) d
        in case limit f of None \<Rightarrow> kept | Some l \<Rightarrow> if 0 < l then take (nat l) kept else kept)"
  using getAllItems_filter[of d f] by (simp add: getAllItems_def)


lemma lower_examples:
  "toLowerCase ''GLORY'' = ''glory''"
  "toLowerCase ''Amulet of glory#1'' = ''amulet of glory#1''"
  "toLowerCase ''Amulet of Glory#4'' = ''amulet of glory#4''"
  "toLowerCase ''Abyssal bludgeon'' = ''abyssal bludgeon''"
  by code_simp+

theorem getAllItems_conjunction_witness:
  "getAllItems [ex_bludgeon, ex_glory, ex_glory4] None = [ex_bludgeon, ex_glory, ex_glory4]
   \<and> filter (filter_keeps \<lparr>nameContains = Some ''GLORY'', hasVariant = Some True, limit = Some 1\<rparr>)
        [ex_bludgeon, ex_glory, ex_glory4] = [ex_glory, ex_glory4]
   \<and> getAllItems [ex_bludgeon, ex_glory, ex_glory4]
        (Some \<lparr>nameContains = Some ''GLORY'', hasVariant = Some True, limit = Some 1\<rparr>) = [ex_glory]
   \<and> getAllItems [ex_bludgeon, ex_glory, ex_glory4]
        (Some \<lparr>nameContains = None, hasVariant = Some False, limit = None\<rparr>) = [ex_bludgeon]"
proof -
  have k: "filter (filter_keeps \<lparr>nameContains = Some ''GLORY'', hasVariant = Some True, limit = Some 1\<rparr>)
        [ex_bludgeon, ex_glory, ex_glory4] = [ex_glory, ex_glory4]"
    by (simp add: filter_keeps_def ex_glory_def ex_bludgeon_def ex_glory4_def lower_examples)
  have k2: "filter (filter_keeps \<lparr>nameContains = None, hasVariant = Some False, limit = None\<rparr>)
        [ex_bludgeon, ex_glory, ex_glory4] = [ex_bludgeon]"
    by (simp add: filter_keeps_def ex_glory_def ex_bludgeon_def ex_glory4_def)
  note t1 = getAllItems_conjunction[of "[ex_bludgeon, ex_glory, ex_glory4]"
        "\<lparr>nameContains = Some ''GLORY'', hasVariant = Some True, limit = Some 1\<rparr>",
        unfolded Let_def k]
  note t2 = getAllItems_conjunction[of "[ex_bludgeon, ex_glory, ex_glory4]"
        "\<lparr>nameContains = None, hasVariant = Some False, limit = None\<rparr>",
        unfolded Let_def k2]
  have g0: "getAllItems [ex_bludgeon, ex_glory, ex_glory4] None = [ex_bludgeon, ex_glory, ex_glory4]"
    using t1 by (rule conjunct1)
  have g1: "getAllItems [ex_bludgeon, ex_glory, ex_glory4]
        (Some \<lparr>nameContains = Some ''GLORY'', hasVariant = Some True, limit = Some 1\<rparr>) = [ex_glory]"
    using t1 by simp
  have g2: "getAllItems [ex_bludgeon, ex_glory, ex_glory4]
        (Some \<lparr>nameContains = None, hasVariant = Some False, limit = None\<rparr>) = [ex_bludgeon]"
    using t2 by simp
  show ?thesis by (simp only: g0 g1 g2 k simp_thms)
qed

section \<open>The range loop and the parts loop\<close>

lemma range_loop_upto: "range_loop i e ids = ids @ map Num [i..e]"
proof (induction i e ids rule: range_loop.induct)
  case (1 i e ids)
  show ?case
  proof (cases "i \<le> e")
    case True
    then have "range_loop i e ids = range_loop (i + 1) e (ids @ [Num i])"
      by (simp add: range_loop.simps[of i e ids])
    also have "\<dots> = (ids @ [Num i]) @ map Num [i + 1..e]" using True by (rule "1.IH")
    also have "\<dots> = ids @ map Num [i..e]" using True by (simp add: upto_rec1[of i e])
    finally show ?thesis .
  next
    case False
    then show ?thesis by (simp add: range_loop.simps[of i e ids])
  qed
qed

lemma push_range_append: "push_range a b ids = ids @ push_range a b []"
  by (cases a; cases b) (simp_all add: range_loop_upto)

lemma range_ids_append: "range_ids t ids = ids @ range_ids t []"
  unfolding range_ids_def
  by (simp split: list.splits add: push_range_append[symmetric])

lemma parts_loop_one:
  "parts_loop (p # ps) ids = parts_loop ps (ids @ parts_loop [p] [])"
  using range_ids_append[of "trim p" ids] by (simp add: Let_def)

lemma parts_loop_concat:
  "parts_loop ps ids = ids @ concat (map (\<lambda>p. parts_loop [p] []) ps)"
proof (induction ps arbitrary: ids)
  case Nil
  then show ?case by simp
next
  case (Cons p ps)
  have "parts_loop (p # ps) ids = parts_loop ps (ids @ parts_loop [p] [])"
    by (rule parts_loop_one)
  also have "\<dots> = (ids @ parts_loop [p] []) @ concat (map (\<lambda>p. parts_loop [p] []) ps)"
    by (rule Cons.IH)
  finally show ?case by simp
qed

section \<open>parseInt\<close>

lemma not_ws_comma: "\<not> is_ws CHR '',''"
  by (simp add: is_ws_def)

lemma not_ws_hyphen: "\<not> is_ws CHR ''-''"
  by (simp add: is_ws_def)

lemma digit_not_ws: "is_digit c \<Longrightarrow> \<not> is_ws c"
  by (auto simp: is_digit_def is_ws_def)

lemma digit_not_sep: "is_digit c \<Longrightarrow> c \<noteq> CHR '','' \<and> c \<noteq> CHR ''-'' \<and> c \<noteq> CHR ''+''"
  by (auto simp: is_digit_def)

lemma ws_not_digit: "is_ws c \<Longrightarrow> \<not> is_digit c"
  using digit_not_ws by blast

lemma ltrim_hd: "ltrim s = c # r \<Longrightarrow> \<not> is_ws c"
  unfolding ltrim_def using hd_dropWhile[of is_ws s] by auto

lemma ltrim_id: "\<not> is_ws c \<Longrightarrow> ltrim (c # r) = c # r"
  by (simp add: ltrim_def)

lemma trim_decomp:
  "\<exists>w1 w2. (\<forall>x\<in>set w1. is_ws x) \<and> (\<forall>x\<in>set w2. is_ws x) \<and> s = w1 @ trim s @ w2"
proof -
  obtain w1 where w1: "\<forall>x\<in>set w1. is_ws x" "s = w1 @ ltrim s" using ltrim_decomp by blast
  obtain w2 where w2: "\<forall>x\<in>set w2. is_ws x" "ltrim s = rtrim (ltrim s) @ w2"
    using rtrim_decomp by blast
  from w1(2) w2(2) have "s = w1 @ trim s @ w2" by (simp add: trim_def)
  with w1(1) w2(1) show ?thesis by blast
qed

lemma ltrim_trim: "ltrim (trim s) = trim s"
proof (cases "ltrim s")
  case Nil
  then have "trim s = []" by (simp add: trim_def rtrim_def)
  then show ?thesis by (simp add: ltrim_def)
next
  case (Cons c r)
  then have c: "\<not> is_ws c" by (rule ltrim_hd)
  obtain w where w: "\<forall>x\<in>set w. is_ws x" "ltrim s = rtrim (ltrim s) @ w"
    using rtrim_decomp by blast
  have "rtrim (ltrim s) \<noteq> []"
  proof
    assume "rtrim (ltrim s) = []"
    with w(2) have "ltrim s = w" by simp
    with Cons have "w = c # r" by simp
    then have "c \<in> set w" by simp
    with w(1) c show False by blast
  qed
  then obtain r' where "rtrim (ltrim s) = c # r'" using w(2) Cons
    by (cases "rtrim (ltrim s)") auto
  then show ?thesis using c by (simp add: trim_def ltrim_id)
qed

lemma takeWhile_digit_append_ws:
  assumes "\<forall>x\<in>set w. is_ws x"
  shows "takeWhile is_digit (t @ w) = takeWhile is_digit t"
proof (cases "\<forall>x\<in>set t. is_digit x")
  case True
  have "takeWhile is_digit w = []"
    using assms ws_not_digit by (cases w) auto
  moreover have tt: "takeWhile is_digit t = t" using True by simp
  moreover have "takeWhile is_digit (t @ w) = t @ takeWhile is_digit w"
    using True by (intro takeWhile_append2) simp
  ultimately have "takeWhile is_digit (t @ w) = t" by (simp only: append_Nil2)
  then show ?thesis by (simp only: tt)
next
  case False
  then show ?thesis by (auto simp: takeWhile_append1)
qed

lemma parseInt_Cons:
  "ltrim s = c # t \<Longrightarrow>
   parseInt s =
     (let z = takeWhile is_digit (if c = CHR ''-'' \<or> c = CHR ''+'' then t else c # t)
      in if z = [] then NaN else Num ((if c = CHR ''-'' then - 1 else 1) * digits_val z))"
  by (simp add: parseInt_def Let_def)

lemma parseInt_Nil: "ltrim s = [] \<Longrightarrow> parseInt s = NaN"
  by (simp add: parseInt_def)

lemma parseInt_trim: "parseInt (trim s) = parseInt s"
proof -
  obtain w where w: "\<forall>x\<in>set w. is_ws x" "ltrim s = trim s @ w"
    using rtrim_decomp[of "ltrim s"] by (auto simp: trim_def)
  show ?thesis
  proof (cases "trim s")
    case Nil
    with w have "ltrim s = w" by simp
    with w(1) have e: "ltrim s = []" using ltrim_hd[of s] by (cases w) auto
    from Nil have "ltrim (trim s) = []" by (metis ltrim_trim)
    with e show ?thesis by (simp add: parseInt_Nil)
  next
    case (Cons c r)
    with w have l: "ltrim s = c # (r @ w)" by simp
    from Cons have l': "ltrim (trim s) = c # r" by (metis ltrim_trim)
    have tw: "takeWhile is_digit (r @ w) = takeWhile is_digit r"
         "takeWhile is_digit ((c # r) @ w) = takeWhile is_digit (c # r)"
      using w(1) by (rule takeWhile_digit_append_ws)+
    have "takeWhile is_digit (if c = CHR ''-'' \<or> c = CHR ''+'' then r @ w else c # r @ w)
        = takeWhile is_digit (if c = CHR ''-'' \<or> c = CHR ''+'' then r else c # r)"
    proof (cases "c = CHR ''-'' \<or> c = CHR ''+''")
      case True
      then show ?thesis using tw(1) by (simp only: if_True)
    next
      case False
      then show ?thesis using tw(2) by (simp only: if_False append_Cons)
    qed
    then show ?thesis
      by (simp only: parseInt_Cons[OF l] parseInt_Cons[OF l'])
  qed
qed

lemma parseInt_NaN_iff: "parseInt s = NaN \<longleftrightarrow> malformed_number s"
  by (cases "ltrim s"; simp add: parseInt_def malformed_number_def Let_def split: list.splits)

lemma parseInt_digits:
  assumes "ds \<noteq> []" "list_all is_digit ds"
  shows "parseInt ds = Num (digits_val ds)"
proof -
  obtain c r where cr: "ds = c # r" using assms(1) by (cases ds) auto
  with assms(2) have c: "is_digit c" by simp
  then have "ltrim ds = ds" using cr digit_not_ws by (simp add: ltrim_id)
  moreover have "takeWhile is_digit ds = ds" using assms(2) by (simp add: list_all_iff)
  ultimately have "parseInt ds =
      (let z = ds in if z = [] then NaN else Num (1 * digits_val z))"
    using cr c digit_not_sep[of c] by (simp add: parseInt_def Let_def del: takeWhile_eq_all_conv)
  then show ?thesis using assms(1) by simp
qed

section \<open>parseItemIds on any input and on the grammar\<close>

lemma parts_loop_single:
  "parts_loop [p] [] =
     (if CHR ''-'' \<in> set (trim p) then range_ids (trim p) [] else [parseInt (trim p)])"
  by (simp add: Let_def str_includes_char)

lemma parts_loop_trim: "parts_loop [trim p] [] = parts_loop [p] []"
  by (simp only: parts_loop_single trim_trim)

lemma parts_loop_map_trim: "parts_loop (map trim ps) [] = parts_loop ps []"
proof -
  have "parts_loop (map trim ps) [] = concat (map (\<lambda>p. parts_loop [p] []) (map trim ps))"
    using parts_loop_concat[of "map trim ps" "[]"] by simp
  also have "\<dots> = concat (map (\<lambda>p. parts_loop [trim p] []) ps)" by (simp add: comp_def)
  also have "\<dots> = concat (map (\<lambda>p. parts_loop [p] []) ps)" by (simp only: parts_loop_trim)
  also have "\<dots> = parts_loop ps []" using parts_loop_concat[of ps "[]"] by simp
  finally show ?thesis .
qed

lemma parts_loop_cong_trim:
  "map trim ps = map trim qs \<Longrightarrow> parts_loop ps [] = parts_loop qs []"
  by (metis parts_loop_map_trim)

lemma range_ids_trim: "range_ids (trim s) ids = range_ids s ids"
proof -
  have "map (\<lambda>x. parseInt (trim x)) (js_split CHR ''-'' (trim s))
      = map parseInt (map trim (js_split CHR ''-'' (trim s)))" by simp
  also have "\<dots> = map parseInt (map trim (js_split CHR ''-'' s))"
    by (simp only: map_trim_split_trim[OF not_ws_hyphen])
  also have "\<dots> = map (\<lambda>x. parseInt (trim x)) (js_split CHR ''-'' s)" by simp
  finally show ?thesis by (simp only: range_ids_def)
qed

lemma parseItemIds_comma:
  assumes "CHR '','' \<in> set s"
  shows "parseItemIds s = Seq (parts_loop (js_split CHR '','' s) [])"
proof -
  have "parts_loop (js_split CHR '','' (trim s)) [] = parts_loop (js_split CHR '','' s) []"
    by (rule parts_loop_cong_trim) (rule map_trim_split_trim[OF not_ws_comma])
  then show ?thesis
    using assms by (simp add: parseItemIds_def Let_def str_includes_char set_trim not_ws_comma)
qed

lemma parseItemIds_hyphen:
  "CHR '','' \<notin> set s \<Longrightarrow> CHR ''-'' \<in> set s \<Longrightarrow> parseItemIds s = Seq (range_ids s [])"
  by (simp add: parseItemIds_def Let_def str_includes_char set_trim not_ws_comma not_ws_hyphen
      range_ids_trim)

lemma parseItemIds_scalar:
  "CHR '','' \<notin> set s \<Longrightarrow> CHR ''-'' \<notin> set s \<Longrightarrow> parseItemIds s = Scalar (parseInt s)"
  by (simp add: parseItemIds_def Let_def str_includes_char set_trim not_ws_comma not_ws_hyphen
      parseInt_trim)

lemma parts_loop_part:
  "parts_loop [p] [] = (if CHR ''-'' \<in> set p then range_ids p [] else [parseInt p])"
  by (simp only: parts_loop_single set_trim[OF not_ws_hyphen] range_ids_trim parseInt_trim)

lemma js_split_comma_join:
  "ps \<noteq> [] \<Longrightarrow> \<forall>p\<in>set ps. c \<notin> set p \<Longrightarrow> c = CHR '','' \<Longrightarrow> js_split c (comma_join ps) = ps"
proof (induction ps rule: comma_join.induct)
  case 1
  then show ?case by simp
next
  case (2 p)
  then show ?case by (simp add: js_split_no_sep)
next
  case (3 p q ps)
  then have "js_split c (comma_join (q # ps)) = q # ps" by simp
  moreover have "c \<notin> set p" using 3 by simp
  ultimately show ?case using 3(4) js_split_append_sep[of c p "comma_join (q # ps)"] by simp
qed

lemma comma_in_join: "CHR '','' \<in> set (comma_join (p # q # ps))"
  by simp

lemma padded_number_chars:
  assumes "padded_number a"
  shows "\<forall>x\<in>set a. is_ws x \<or> is_digit x"
proof -
  obtain w1 w2 where w: "\<forall>x\<in>set w1. is_ws x" "\<forall>x\<in>set w2. is_ws x" "a = w1 @ trim a @ w2"
    using trim_decomp by blast
  have "\<forall>x\<in>set (trim a). is_digit x" using assms by (simp add: padded_number_def list_all_iff)
  with w(1,2) have "\<forall>x\<in>set (w1 @ trim a @ w2). is_ws x \<or> is_digit x" by auto
  with w(3) show ?thesis by simp
qed

lemma padded_number_no_sep:
  assumes "padded_number a"
  shows "CHR '','' \<notin> set a" and "CHR ''-'' \<notin> set a"
  using padded_number_chars[OF assms] not_ws_comma not_ws_hyphen digit_not_sep by blast+

lemma padded_number_parseInt:
  assumes "padded_number a"
  shows "parseInt a = Num (number_of a)"
proof -
  have "parseInt (trim a) = Num (digits_val (trim a))"
    using assms by (intro parseInt_digits) (simp_all add: padded_number_def)
  then show ?thesis by (simp add: parseInt_trim number_of_def)
qed

lemma range_ids_padded:
  assumes "padded_number a" "padded_number b"
  shows "range_ids (a @ ''-'' @ b) [] = map Num [number_of a .. number_of b]"
proof -
  have "js_split CHR ''-'' (a @ CHR ''-'' # b) = [a, b]"
    using padded_number_no_sep(2)[OF assms(1)] padded_number_no_sep(2)[OF assms(2)]
    by (simp add: js_split_append_sep js_split_no_sep)
  then have "map (\<lambda>x. parseInt (trim x)) (js_split CHR ''-'' (a @ ''-'' @ b))
      = [Num (number_of a), Num (number_of b)]"
    using assms by (simp add: parseInt_trim padded_number_parseInt)
  then show ?thesis by (simp add: range_ids_def range_loop_upto)
qed

lemma wf_part_expand:
  assumes "wf_part p"
  shows "parts_loop [render p] [] = map Num (expand p)" and "CHR '','' \<notin> set (render p)"
proof -
  show "parts_loop [render p] [] = map Num (expand p)"
  proof (cases p)
    case (Single a)
    with assms have a: "padded_number a" by simp
    then show ?thesis
      using Single padded_number_no_sep(2)[OF a]
      by (simp only: parts_loop_part render.simps expand.simps padded_number_parseInt[OF a])
         simp
  next
    case (Span a b)
    with assms have ab: "padded_number a" "padded_number b" by simp_all
    have "CHR ''-'' \<in> set (a @ ''-'' @ b)" by simp
    then show ?thesis
      using Span by (simp only: parts_loop_part render.simps expand.simps
          range_ids_padded[OF ab] if_True)
  qed
  show "CHR '','' \<notin> set (render p)"
    using assms by (cases p) (auto dest: padded_number_no_sep(1))
qed

lemma parseItemIds_grammar:
  assumes "ps \<noteq> []" and "\<forall>p\<in>set ps. wf_part p"
  shows "parseItemIds (comma_join (map render ps)) = grammar_ids ps"
proof -
  have nc: "\<forall>s\<in>set (map render ps). CHR '','' \<notin> set s"
    using assms(2) wf_part_expand(2) by auto
  have ex: "concat (map (\<lambda>s. parts_loop [s] []) (map render ps)) = map Num (concat (map expand ps))"
    using assms(2) by (induction ps) (simp_all add: wf_part_expand(1) del: parts_loop.simps)
  show ?thesis
  proof (cases ps)
    case Nil
    with assms(1) show ?thesis by simp
  next
    case (Cons p rest)
    show ?thesis
    proof (cases rest)
      case Nil
      show ?thesis
      proof (cases p)
        case (Single a)
        with assms(2) Cons have a: "padded_number a" by simp
        show ?thesis
          using Cons Nil Single padded_number_no_sep[OF a]
          by (simp add: parseItemIds_scalar padded_number_parseInt[OF a])
      next
        case (Span a b)
        with assms(2) Cons have ab: "padded_number a" "padded_number b" by simp_all
        have "CHR '','' \<notin> set (a @ ''-'' @ b)"
          using padded_number_no_sep(1)[OF ab(1)] padded_number_no_sep(1)[OF ab(2)] by simp
        moreover have "CHR ''-'' \<in> set (a @ ''-'' @ b)" by simp
        ultimately have "parseItemIds (a @ ''-'' @ b) = Seq (range_ids (a @ ''-'' @ b) [])"
          by (rule parseItemIds_hyphen)
        then show ?thesis
          using Cons Nil Span range_ids_padded[OF ab] by simp
      qed
    next
      case (Cons q rest')
      with \<open>ps = p # rest\<close> have ps: "ps = p # q # rest'" by simp
      then have "CHR '','' \<in> set (comma_join (map render ps))" by simp
      then have "parseItemIds (comma_join (map render ps))
          = Seq (parts_loop (js_split CHR '','' (comma_join (map render ps))) [])"
        by (rule parseItemIds_comma)
      also have "js_split CHR '','' (comma_join (map render ps)) = map render ps"
        using nc ps by (intro js_split_comma_join) simp_all
      also have "parts_loop (map render ps) [] = map Num (concat (map expand ps))"
        using parts_loop_concat[of "map render ps" "[]"] ex by (simp del: parts_loop.simps)
      also have "Seq (map Num (concat (map expand ps))) = grammar_ids ps"
        using ps by simp
      finally show ?thesis .
    qed
  qed
qed

lemma comma_in_join2: "2 \<le> length xs \<Longrightarrow> CHR '','' \<in> set (comma_join xs)"
proof -
  assume "2 \<le> length xs"
  then obtain p q r where "xs = p # q # r"
    by (cases xs; cases "tl xs") auto
  then show ?thesis by simp
qed

lemma push_range_NaN: "push_range NaN x ids = ids" "push_range x NaN ids = ids"
  by (cases x; simp)+

lemma range_ids_two:
  assumes "CHR ''-'' \<notin> set a" "CHR ''-'' \<notin> set b"
  shows "range_ids (a @ ''-'' @ b) [] = push_range (parseInt a) (parseInt b) []"
proof -
  have "js_split CHR ''-'' (a @ CHR ''-'' # b) = [a, b]"
    using assms by (simp add: js_split_append_sep js_split_no_sep)
  then show ?thesis by (simp add: range_ids_def parseInt_trim)
qed

lemma parseItemIds_join:
  assumes "xs \<noteq> []" and "\<forall>p\<in>set xs. CHR '','' \<notin> set p"
    and "2 \<le> length xs \<or> CHR ''-'' \<in> set (hd xs)"
  shows "parseItemIds (comma_join xs) = Seq (concat (map (\<lambda>p. parts_loop [p] []) xs))"
proof (cases "2 \<le> length xs")
  case True
  then have "CHR '','' \<in> set (comma_join xs)" by (rule comma_in_join2)
  then have "parseItemIds (comma_join xs) = Seq (parts_loop (js_split CHR '','' (comma_join xs)) [])"
    by (rule parseItemIds_comma)
  also have "js_split CHR '','' (comma_join xs) = xs"
    using assms(1,2) by (intro js_split_comma_join) simp_all
  also have "parts_loop xs [] = concat (map (\<lambda>p. parts_loop [p] []) xs)"
    using parts_loop_concat[of xs "[]"] by (simp del: parts_loop.simps)
  finally show ?thesis .
next
  case False
  with assms(1) obtain x where x: "xs = [x]" by (cases xs; cases "tl xs") auto
  with assms(2,3) False have c: "CHR '','' \<notin> set x" and h: "CHR ''-'' \<in> set x" by simp_all
  have "parseItemIds x = Seq (range_ids x [])" using c h by (rule parseItemIds_hyphen)
  also have "range_ids x [] = parts_loop [x] []" using h by (simp only: parts_loop_part if_True)
  finally show ?thesis using x by (simp del: parts_loop.simps)
qed

lemma wf_parts_expand:
  "\<forall>p\<in>set ps. wf_part p \<Longrightarrow>
   concat (map (\<lambda>s. parts_loop [s] []) (map render ps)) = map Num (concat (map expand ps))"
  by (induction ps) (simp_all add: wf_part_expand(1) del: parts_loop.simps)

lemma wf_parts_no_comma:
  "\<forall>p\<in>set ps. wf_part p \<Longrightarrow> \<forall>s\<in>set (map render ps). CHR '','' \<notin> set s"
  using wf_part_expand(2) by auto

lemma parseItemIds_among_wf:
  assumes "\<forall>p\<in>set (ps1 @ ps2). wf_part p" and "CHR '','' \<notin> set x"
    and "ps1 @ ps2 \<noteq> [] \<or> CHR ''-'' \<in> set x"
  shows "parseItemIds (comma_join (map render ps1 @ x # map render ps2))
       = Seq (map Num (concat (map expand ps1)) @ parts_loop [x] []
              @ map Num (concat (map expand ps2)))"
proof -
  let ?xs = "map render ps1 @ x # map render ps2"
  have w1: "\<forall>p\<in>set ps1. wf_part p" and w2: "\<forall>p\<in>set ps2. wf_part p" using assms(1) by auto
  have nc: "\<forall>p\<in>set ?xs. CHR '','' \<notin> set p"
    using wf_parts_no_comma[OF w1] wf_parts_no_comma[OF w2] assms(2) by auto
  have len: "2 \<le> length ?xs \<or> CHR ''-'' \<in> set (hd ?xs)"
    using assms(3) by (cases ps1; cases ps2) auto
  have "parseItemIds (comma_join ?xs) = Seq (concat (map (\<lambda>p. parts_loop [p] []) ?xs))"
    using nc len by (intro parseItemIds_join) simp_all
  also have "concat (map (\<lambda>p. parts_loop [p] []) ?xs)
      = concat (map (\<lambda>p. parts_loop [p] []) (map render ps1)) @ parts_loop [x] []
        @ concat (map (\<lambda>p. parts_loop [p] []) (map render ps2))"
    by (simp del: parts_loop.simps)
  finally show ?thesis by (simp only: wf_parts_expand[OF w1] wf_parts_expand[OF w2])
qed

section \<open>parseItemIds: claims C3, C10 and C4\<close>

text \<open>
  C3: for every well-formed identifier string, parseItemIds follows the grammar: one
  number with neither comma nor hyphen gives the scalar; \<open>A-B\<close> without a comma gives
  the inclusive ascending range from \<open>A\<close> to \<open>B\<close>; a comma-separated list gives the
  expansions of its parts, concatenated in order; white space around numbers, hyphens
  and commas is tolerated.
\<close>

theorem parseItemIds_implements_grammar:
  assumes "padded_number a" and "padded_number b" and "\<forall>p\<in>set ps. wf_part p"
  shows "parseItemIds a = Scalar (Num (number_of a))
    \<and> parseItemIds (a @ ''-'' @ b) = Seq (map Num [number_of a .. number_of b])
    \<and> (2 \<le> length ps \<longrightarrow>
         parseItemIds (comma_join (map render ps)) = Seq (map Num (concat (map expand ps))))"
proof (intro conjI impI)
  show "parseItemIds a = Scalar (Num (number_of a))"
    using parseItemIds_grammar[of "[Single a]"] assms(1) by simp
  show "parseItemIds (a @ ''-'' @ b) = Seq (map Num [number_of a .. number_of b])"
    using parseItemIds_grammar[of "[Span a b]"] assms(1,2) by simp
next
  assume "2 \<le> length ps"
  then obtain p q r where ps: "ps = p # q # r" by (cases ps; cases "tl ps") auto
  then have "grammar_ids ps = Seq (map Num (concat (map expand ps)))" by simp
  moreover have "ps \<noteq> []" using ps by simp
  ultimately show "parseItemIds (comma_join (map render ps)) = Seq (map Num (concat (map expand ps)))"
    using parseItemIds_grammar[OF _ assms(3)] by simp
qed

lemma number_examples:
  "padded_number ''13263''" "number_of ''13263'' = 13263"
  "padded_number ''  1704 ''" "number_of ''  1704 '' = 1704"
  "padded_number '' 1706  ''" "number_of '' 1706  '' = 1706"
  "padded_number ''1704''" "number_of ''1704'' = 1704"
  "padded_number ''1706''" "number_of ''1706'' = 1706"
  "padded_number '' 11976''" "number_of '' 11976'' = 11976"
  "padded_number '' 11978''" "number_of '' 11978'' = 11978"
  by (simp_all add: padded_number_def number_of_def digits_val_def digit_val_def is_digit_def
      trim_def ltrim_def rtrim_def is_ws_def)

theorem parseItemIds_implements_grammar_witness:
  "parseItemIds ''13263'' = Scalar (Num 13263)
   \<and> parseItemIds ''  1704 - 1706  '' = Seq [Num 1704, Num 1705, Num 1706]
   \<and> parseItemIds ''1704-1706, 11976, 11978''
        = Seq [Num 1704, Num 1705, Num 1706, Num 11976, Num 11978]"
proof -
  have "parseItemIds ''13263'' = Scalar (Num 13263)"
    using parseItemIds_implements_grammar[of "''13263''" "''13263''" "[]"]
    by (simp add: number_examples)
  moreover have "parseItemIds ''  1704 - 1706  '' = Seq [Num 1704, Num 1705, Num 1706]"
    using parseItemIds_implements_grammar[of "''  1704 ''" "'' 1706  ''" "[]"]
    by (simp add: number_examples)
  moreover have "parseItemIds ''1704-1706, 11976, 11978''
        = Seq [Num 1704, Num 1705, Num 1706, Num 11976, Num 11978]"
    using parseItemIds_implements_grammar[of "''1704''" "''1704''"
        "[Span ''1704'' ''1706'', Single '' 11976'', Single '' 11978'']"]
    by (simp add: number_examples)
  ultimately show ?thesis by simp
qed

text \<open>
  C10: for every hyphenated \<open>A-B\<close> with \<open>A\<close> greater than \<open>B\<close>, parseItemIds returns the
  empty sequence for the comma-free input, and inside a comma-separated list the part
  contributes no element; the range is never reversed.
\<close>

theorem parseItemIds_descending_range:
  assumes "padded_number a" and "padded_number b" and "number_of b < number_of a"
    and "\<forall>p\<in>set (ps1 @ ps2). wf_part p"
  shows "parseItemIds (a @ ''-'' @ b) = Seq []
    \<and> parseItemIds (comma_join (map render (ps1 @ Span a b # ps2)))
        = Seq (map Num (concat (map expand (ps1 @ ps2))))"
proof
  show "parseItemIds (a @ ''-'' @ b) = Seq []"
    using parseItemIds_grammar[of "[Span a b]"] assms(1,2,3) by simp
next
  let ?ps = "ps1 @ Span a b # ps2"
  have wf: "\<forall>p\<in>set ?ps. wf_part p" using assms(1,2,4) by auto
  have "grammar_ids ?ps = Seq (map Num (concat (map expand ?ps)))"
  proof (cases ps1)
    case Nil
    then show ?thesis by (cases ps2) simp_all
  next
    case (Cons p r)
    then show ?thesis by (cases r; cases p) simp_all
  qed
  moreover have "concat (map expand ?ps) = concat (map expand (ps1 @ ps2))"
    using assms(3) by simp
  ultimately show "parseItemIds (comma_join (map render ?ps))
        = Seq (map Num (concat (map expand (ps1 @ ps2))))"
    using parseItemIds_grammar[OF _ wf] by simp
qed

theorem parseItemIds_descending_range_witness:
  "parseItemIds ''1706-1704'' = Seq []
   \<and> parseItemIds ''1706-1704, 11976'' = Seq [Num 11976]
   \<and> parseItemIds ''13263,1706-1704, 11978'' = Seq [Num 13263, Num 11978]"
proof -
  have "parseItemIds ''1706-1704'' = Seq []"
    "parseItemIds ''1706-1704, 11976'' = Seq [Num 11976]"
    using parseItemIds_descending_range[of "''1706''" "''1704''" "[]" "[Single '' 11976'']"]
    by (simp_all add: number_examples)
  moreover have "parseItemIds ''13263,1706-1704, 11978'' = Seq [Num 13263, Num 11978]"
    using parseItemIds_descending_range[of "''1706''" "''1704''" "[Single ''13263'']"
        "[Single '' 11978'']"]
    by (simp add: number_examples)
  ultimately show ?thesis by simp
qed

text \<open>
  C4, as stated, asks for an explicit failure on malformed numeric text. On \<open>abc\<close>
  parseItemIds returns the scalar \<open>NaN\<close>: the sentinel is the result.
\<close>

theorem parseItemIds_sentinel_counterexample:
  "malformed_number ''abc'' \<and> parseItemIds ''abc'' = Scalar NaN \<and> has_NaN (parseItemIds ''abc'')"
  by (simp add: malformed_number_def parseItemIds_def parseInt_def is_digit_def
      trim_def ltrim_def rtrim_def is_ws_def)

text \<open>
  C4, amended: for every text with neither comma nor hyphen that is not parseable as
  an integer, parseItemIds signals no failure: alone the text yields the scalar
  \<open>NaN\<close>; as a part of a comma-separated list whose other parts are well-formed it
  contributes the element \<open>NaN\<close> in its place; as a bound of a range, alone or in
  such a list, it makes the range contribute no element.
\<close>

theorem parseItemIds_malformed_sentinel:
  assumes "malformed_number s" and "CHR '','' \<notin> set s" and "CHR ''-'' \<notin> set s"
    and "CHR '','' \<notin> set t" and "CHR ''-'' \<notin> set t"
    and "\<forall>p\<in>set (ps1 @ ps2). wf_part p"
  shows "parseItemIds s = Scalar NaN
    \<and> (ps1 @ ps2 \<noteq> [] \<longrightarrow>
         parseItemIds (comma_join (map render ps1 @ s # map render ps2))
           = Seq (map Num (concat (map expand ps1)) @ NaN # map Num (concat (map expand ps2))))
    \<and> parseItemIds (comma_join (map render ps1 @ (s @ ''-'' @ t) # map render ps2))
           = Seq (map Num (concat (map expand ps1)) @ map Num (concat (map expand ps2)))
    \<and> parseItemIds (comma_join (map render ps1 @ (t @ ''-'' @ s) # map render ps2))
           = Seq (map Num (concat (map expand ps1)) @ map Num (concat (map expand ps2)))"
proof (intro conjI impI)
  have n: "parseInt s = NaN" using assms(1) by (simp add: parseInt_NaN_iff)
  show "parseItemIds s = Scalar NaN"
    using assms(2,3) n by (simp add: parseItemIds_scalar)
  have one: "parts_loop [s] [] = [NaN]"
    using assms(3) n by (simp only: parts_loop_part if_False)
  have st: "parts_loop [s @ ''-'' @ t] [] = []"
  proof -
    have "CHR ''-'' \<in> set (s @ ''-'' @ t)" by simp
    then have "parts_loop [s @ ''-'' @ t] [] = range_ids (s @ ''-'' @ t) []"
      by (simp only: parts_loop_part if_True)
    then show ?thesis using n by (simp only: range_ids_two[OF assms(3,5)] push_range_NaN)
  qed
  have ts: "parts_loop [t @ ''-'' @ s] [] = []"
  proof -
    have "CHR ''-'' \<in> set (t @ ''-'' @ s)" by simp
    then have "parts_loop [t @ ''-'' @ s] [] = range_ids (t @ ''-'' @ s) []"
      by (simp only: parts_loop_part if_True)
    then show ?thesis using n by (simp only: range_ids_two[OF assms(5,3)] push_range_NaN)
  qed
  {
    assume "ps1 @ ps2 \<noteq> []"
    then have "ps1 @ ps2 \<noteq> [] \<or> CHR ''-'' \<in> set s" by simp
    from parseItemIds_among_wf[OF assms(6,2) this]
    show "parseItemIds (comma_join (map render ps1 @ s # map render ps2))
           = Seq (map Num (concat (map expand ps1)) @ NaN # map Num (concat (map expand ps2)))"
      by (simp only: one append_Cons append_Nil)
  }
  have c1: "CHR '','' \<notin> set (s @ ''-'' @ t)" using assms(2,4) by simp
  have h1: "ps1 @ ps2 \<noteq> [] \<or> CHR ''-'' \<in> set (s @ ''-'' @ t)" by simp
  from parseItemIds_among_wf[OF assms(6) c1 h1]
  show "parseItemIds (comma_join (map render ps1 @ (s @ ''-'' @ t) # map render ps2))
           = Seq (map Num (concat (map expand ps1)) @ map Num (concat (map expand ps2)))"
    by (simp only: st append_Nil)
  have c2: "CHR '','' \<notin> set (t @ ''-'' @ s)" using assms(2,4) by simp
  have h2: "ps1 @ ps2 \<noteq> [] \<or> CHR ''-'' \<in> set (t @ ''-'' @ s)" by simp
  from parseItemIds_among_wf[OF assms(6) c2 h2]
  show "parseItemIds (comma_join (map render ps1 @ (t @ ''-'' @ s) # map render ps2))
           = Seq (map Num (concat (map expand ps1)) @ map Num (concat (map expand ps2)))"
    by (simp only: ts append_Nil)
qed

theorem parseItemIds_malformed_sentinel_witness:
  "malformed_number '' n/a'' \<and> CHR '','' \<notin> set '' n/a'' \<and> CHR ''-'' \<notin> set '' n/a''
   \<and> parseItemIds '' n/a'' = Scalar NaN
   \<and> parseItemIds ''11976, n/a,1704-1706'' = Seq [Num 11976, NaN, Num 1704, Num 1705, Num 1706]
   \<and> parseItemIds '' n/a-5'' = Seq [] \<and> parseItemIds ''5- n/a'' = Seq []
   \<and> parseItemIds ''11976, n/a-5,1704-1706'' = Seq [Num 11976, Num 1704, Num 1705, Num 1706]
   \<and> parseItemIds ''11976,5- n/a,1704-1706'' = Seq [Num 11976, Num 1704, Num 1705, Num 1706]"
proof -
  have m: "malformed_number '' n/a''" "CHR '','' \<notin> set '' n/a''" "CHR ''-'' \<notin> set '' n/a''"
    "CHR '','' \<notin> set ''5''" "CHR ''-'' \<notin> set ''5''"
    by (simp_all add: malformed_number_def is_digit_def ltrim_def is_ws_def)
  have e: "padded_number ''11976''" "number_of ''11976'' = 11976"
    by (simp_all add: padded_number_def number_of_def digits_val_def digit_val_def is_digit_def
      trim_def ltrim_def rtrim_def is_ws_def)
  have "parseItemIds '' n/a'' = Scalar NaN"
    "parseItemIds ''11976, n/a,1704-1706'' = Seq [Num 11976, NaN, Num 1704, Num 1705, Num 1706]"
    "parseItemIds ''11976, n/a-5,1704-1706'' = Seq [Num 11976, Num 1704, Num 1705, Num 1706]"
    "parseItemIds ''11976,5- n/a,1704-1706'' = Seq [Num 11976, Num 1704, Num 1705, Num 1706]"
    using parseItemIds_malformed_sentinel[OF m, of "[Single ''11976'']" "[Span ''1704'' ''1706'']"]
    by (simp_all add: e number_examples)
  moreover have "parseItemIds '' n/a-5'' = Seq []" "parseItemIds ''5- n/a'' = Seq []"
    using parseItemIds_malformed_sentinel[OF m, of "[]" "[]"] by simp_all
  ultimately show ?thesis using m by simp
qed

end
